theory Spec2Isabelle
  imports Main "HOL-Library.Word" "HOL-Library.AList" "HOL-Library.Sublist"
begin

section \<open>The membership registry: data\<close>

text \<open>
  The registry of \<^verbatim>\<open>pkg/registry/contractRegistry.go\<close> polls a contract for the
  list of nodes and diffs it against a map held in memory. The raw records are the
  binding types \<^verbatim>\<open>abis.NodesNode\<close> and \<^verbatim>\<open>abis.NodesNodeWithId\<close>, with the fields
  that \<^verbatim>\<open>convertNode\<close> reads; \<^verbatim>\<open>Node\<close> has the five fields that
  \<^verbatim>\<open>convertNode\<close> writes.
\<close>

type_synonym uint16 = "16 word"
type_synonym uint64 = "64 word"
type_synonym byte = "8 word"

text \<open>A parsed public key is kept as its canonical bytes; a nil key is \<open>None\<close>.\<close>

type_synonym pubkey = "byte list"

record NodesNode =
  SigningKeyPub :: "byte list"
  HttpAddress :: string
  IsHealthy :: bool

record NodesNodeWithId =
  NodeId :: uint16
  Node :: NodesNode

record Node =
  NodeID :: uint16
  SigningKey :: "pubkey option"
  HttpAddress :: string
  IsHealthy :: bool
  IsValidConfig :: bool

text \<open>The error values of the contract call are opaque; they carry their message.\<close>

datatype err = Err string

text \<open>A run-time panic of Go: an index outside a slice (the index, the length).\<close>

datatype panic = IndexOutOfRange nat nat

text \<open>
  What the registry sends to its subscribers: \<^verbatim>\<open>newNodesNotifier.trigger(nodes)\<close>
  and \<^verbatim>\<open>registry.trigger(node)\<close> on the notifier of one id. The notifier type is
  not part of the files at hand, so each call of \<^verbatim>\<open>trigger\<close> is recorded, in order.
\<close>

datatype notification = NewNodes "Node list" | ChangedNode Node

text \<open>
  The state of a \<^verbatim>\<open>SmartContractRegistry\<close>. The Go map \<^verbatim>\<open>nodes\<close> is an
  association list, read with \<open>map_of\<close> and written with \<open>AList.update\<close>; the order of
  its entries stands for the order in which a \<^verbatim>\<open>range\<close> over the map visits them,
  which Go leaves open. \<^verbatim>\<open>changedNodeNotifiers\<close> is the set of ids that have a
  notifier. \<open>triggered\<close> is the sequence of \<^verbatim>\<open>trigger\<close> calls so far,
  \<open>errorLog\<close> what \<^verbatim>\<open>logger.Error\<close> has written, and \<open>loopRunning\<close> whether the
  goroutine of \<^verbatim>\<open>refreshLoop\<close> has been started and has not returned.
\<close>

record SmartContractRegistry =
  nodes :: "(uint16 \<times> Node) list"
  changedNodeNotifiers :: "uint16 set"
  triggered :: "notification list"
  errorLog :: "err list"
  loopRunning :: bool

text \<open>The result of \<^verbatim>\<open>contract.AllNodes\<close>: an error (also on timeout) or the raw list.\<close>

type_synonym contractResult = "err + NodesNodeWithId list"

text \<open>\<^verbatim>\<open>crypto.UnmarshalPubkey\<close> belongs to a library; it is a parameter here.
  \<open>None\<close> is its error return (with a nil key).\<close>

type_synonym unmarshalPubkey = "byte list \<Rightarrow> pubkey option"

definition NewSmartContractRegistry :: SmartContractRegistry where
  "NewSmartContractRegistry =
     \<lparr> nodes = [], changedNodeNotifiers = {}, triggered = [], errorLog = [],
       loopRunning = False \<rparr>"

text \<open>The zero value of \<^verbatim>\<open>Node\<close>, with which \<^verbatim>\<open>make([]Node, n)\<close> fills a slice.\<close>

definition zeroNode :: Node where
  "zeroNode = \<lparr> NodeID = 0, SigningKey = None, HttpAddress = [], IsHealthy = False,
                IsValidConfig = False \<rparr>"

text \<open>
  Modelled from the spec: \<^verbatim>\<open>Node.Equals\<close> (the file declaring \<^verbatim>\<open>Node\<close> is not among
  the sources). "Node equality: field-by-field equality including the derived
  \<^verbatim>\<open>valid_config\<close> bit. Signing keys compared by canonical bytes."
\<close>

definition Equals :: "Node \<Rightarrow> Node \<Rightarrow> bool" where
  "Equals n other \<longleftrightarrow>
     NodeID n = NodeID other \<and> SigningKey n = SigningKey other \<and>
     Node.HttpAddress n = Node.HttpAddress other \<and>
     Node.IsHealthy n = Node.IsHealthy other \<and> IsValidConfig n = IsValidConfig other"

section \<open>The membership registry: operations\<close>

text \<open>\<^verbatim>\<open>strings.HasPrefix(s, p)\<close>.\<close>

definition HasPrefix :: "string \<Rightarrow> string \<Rightarrow> bool" where
  "HasPrefix s p \<longleftrightarrow> prefix p s"

definition convertNode :: "unmarshalPubkey \<Rightarrow> NodesNodeWithId \<Rightarrow> Node" where
  "convertNode um rawNode =
     (let signingKey = um (SigningKeyPub (Node rawNode));
          isValidConfig = (signingKey \<noteq> None);
          httpAddress = NodesNode.HttpAddress (Node rawNode);
          isValidConfig =
            (if \<not> HasPrefix httpAddress ''https://'' \<and> \<not> HasPrefix httpAddress ''http://''
             then False else isValidConfig)
      in \<lparr> NodeID = NodeId rawNode, SigningKey = signingKey, HttpAddress = httpAddress,
           IsHealthy = NodesNode.IsHealthy (Node rawNode), IsValidConfig = isValidConfig \<rparr>)"

definition loadFromContract :: "unmarshalPubkey \<Rightarrow> contractResult \<Rightarrow> err + Node list" where
  "loadFromContract um res =
     (case res of Inl e \<Rightarrow> Inl e | Inr rawNodes \<Rightarrow> Inr (map (convertNode um) rawNodes))"

definition OnChangedNode :: "uint16 \<Rightarrow> SmartContractRegistry \<Rightarrow> SmartContractRegistry" where
  "OnChangedNode nodeId s = s\<lparr>changedNodeNotifiers := insert nodeId (changedNodeNotifiers s)\<rparr>"

text \<open>
  \<^verbatim>\<open>GetNodes\<close>: a slice of \<^verbatim>\<open>len(s.nodes)\<close> zero nodes, then
  \<^verbatim>\<open>for idx, node := range s.nodes { nodes[idx] = node }\<close>, where \<^verbatim>\<open>idx\<close> is the
  key of the map entry. A write outside the slice panics. The second component of the
  result is the error that \<^verbatim>\<open>GetNodes\<close> returns (\<open>None\<close> for nil).
\<close>

fun GetNodes_loop :: "(uint16 \<times> Node) list \<Rightarrow> Node list \<Rightarrow> panic + Node list" where
  "GetNodes_loop [] out = Inr out"
| "GetNodes_loop ((idx, node) # rest) out =
     (if unat idx < length out then GetNodes_loop rest (out[unat idx := node])
      else Inl (IndexOutOfRange (unat idx) (length out)))"

definition GetNodes :: "SmartContractRegistry \<Rightarrow> panic + (Node list \<times> err option)" where
  "GetNodes s =
     (case GetNodes_loop (nodes s) (replicate (length (nodes s)) zeroNode) of
        Inl p \<Rightarrow> Inl p
      | Inr out \<Rightarrow> Inr (out, None))"

definition processChangedNode :: "Node \<Rightarrow> SmartContractRegistry \<Rightarrow> SmartContractRegistry" where
  "processChangedNode node s =
     (let s1 = s\<lparr>nodes := AList.update (NodeID node) node (nodes s)\<rparr>
      in if NodeID node \<in> changedNodeNotifiers s1
         then s1\<lparr>triggered := triggered s1 @ [ChangedNode node]\<rparr> else s1)"

definition storeNode :: "Node \<Rightarrow> SmartContractRegistry \<Rightarrow> SmartContractRegistry" where
  "storeNode node s = s\<lparr>nodes := AList.update (NodeID node) node (nodes s)\<rparr>"

definition processNewNodes :: "Node list \<Rightarrow> SmartContractRegistry \<Rightarrow> SmartContractRegistry" where
  "processNewNodes ns s = fold storeNode ns (s\<lparr>triggered := triggered s @ [NewNodes ns]\<rparr>)"

text \<open>The loop of \<^verbatim>\<open>refreshData\<close> over the fetched nodes, with the slice
  \<^verbatim>\<open>newNodes\<close> as an accumulator.\<close>

fun refreshData_loop ::
  "Node list \<Rightarrow> SmartContractRegistry \<Rightarrow> Node list \<Rightarrow> SmartContractRegistry \<times> Node list" where
  "refreshData_loop [] s newNodes = (s, newNodes)"
| "refreshData_loop (node # rest) s newNodes =
     (case map_of (nodes s) (NodeID node) of
        None \<Rightarrow> refreshData_loop rest s (newNodes @ [node])
      | Some existingValue \<Rightarrow>
          if \<not> Equals node existingValue
          then refreshData_loop rest (processChangedNode node s) newNodes
          else refreshData_loop rest s newNodes)"

definition refreshData ::
  "unmarshalPubkey \<Rightarrow> contractResult \<Rightarrow> SmartContractRegistry \<Rightarrow> err + SmartContractRegistry" where
  "refreshData um res s =
     (case loadFromContract um res of
        Inl e \<Rightarrow> Inl e
      | Inr fromContract \<Rightarrow>
          (case refreshData_loop fromContract s [] of
             (s1, newNodes) \<Rightarrow>
               Inr (if length newNodes > 0 then processNewNodes newNodes s1 else s1)))"

text \<open>\<^verbatim>\<open>Start\<close> returns the error of the first refresh, or starts the loop.\<close>

definition Start ::
  "unmarshalPubkey \<Rightarrow> contractResult \<Rightarrow> SmartContractRegistry \<Rightarrow> err option \<times> SmartContractRegistry" where
  "Start um res s =
     (case refreshData um res s of
        Inl e \<Rightarrow> (Some e, s)
      | Inr s1 \<Rightarrow> (None, s1\<lparr>loopRunning := True\<rparr>))"

text \<open>
  \<^verbatim>\<open>refreshLoop\<close> waits for the context to end or for the ticker. The list is what
  the \<^verbatim>\<open>select\<close> receives, in order, each tick with the result its contract call
  will have. With no event left the loop stays blocked in the \<^verbatim>\<open>select\<close>.
\<close>

datatype loopEvent = CtxDone | Tick contractResult

definition tick :: "unmarshalPubkey \<Rightarrow> contractResult \<Rightarrow> SmartContractRegistry \<Rightarrow> SmartContractRegistry" where
  "tick um res s =
     (case refreshData um res s of
        Inl e \<Rightarrow> s\<lparr>errorLog := errorLog s @ [e]\<rparr>
      | Inr s1 \<Rightarrow> s1)"

fun refreshLoop :: "unmarshalPubkey \<Rightarrow> loopEvent list \<Rightarrow> SmartContractRegistry \<Rightarrow> SmartContractRegistry" where
  "refreshLoop um [] s = s"
| "refreshLoop um (CtxDone # evs) s = s\<lparr>loopRunning := False\<rparr>"
| "refreshLoop um (Tick res # evs) s = refreshLoop um evs (tick um res s)"

text \<open>
  The callers of the registry, one after the other: \<^verbatim>\<open>Start\<close> with the result of
  its contract call, a tick of the running loop with the result of its contract call, and
  a subscription \<^verbatim>\<open>OnChangedNode(nodeId)\<close>. A tick is served only while the loop runs.
  A run is any sequence of them on a fresh registry.
\<close>

datatype action = DoStart contractResult | DoTick contractResult | DoOnChangedNode uint16

fun perform :: "unmarshalPubkey \<Rightarrow> action \<Rightarrow> SmartContractRegistry \<Rightarrow> SmartContractRegistry" where
  "perform um (DoStart res) s = snd (Start um res s)"
| "perform um (DoTick res) s = (if loopRunning s then tick um res s else s)"
| "perform um (DoOnChangedNode nodeId) s = OnChangedNode nodeId s"

definition run :: "unmarshalPubkey \<Rightarrow> action list \<Rightarrow> SmartContractRegistry" where
  "run um acts = fold (perform um) acts NewSmartContractRegistry"

subsection \<open>Notions used to state the properties\<close>

text \<open>The ids held by the roster.\<close>

definition keys :: "SmartContractRegistry \<Rightarrow> uint16 set" where
  "keys s = fst ` set (nodes s)"

text \<open>A fetched list read as a map from id to node; of two nodes with one id the
  later one counts.\<close>

definition snapshotMap :: "Node list \<Rightarrow> uint16 \<rightharpoonup> Node" where
  "snapshotMap xs = map_of (rev (map (\<lambda>n. (NodeID n, n)) xs))"

text \<open>
  The diff of a fetched list \<open>xs\<close> against the roster of \<open>s\<close>, as the specification
  words it. New are the fetched nodes whose id the roster does not hold. The fetched node
  at position \<open>i\<close> is compared with what the memory holds under its id when the refresh
  reaches it: the value of the roster before the refresh or, if the list has nodes of
  that id before position \<open>i\<close>, the last of them; ids that the roster does not hold stay
  out of the memory until the end of the refresh. Changed, and sent to the notifier of
  its id, is a fetched node whose id has a notifier and whose value is not equal to that
  value in memory.
\<close>

definition memoryAt :: "SmartContractRegistry \<Rightarrow> Node list \<Rightarrow> nat \<Rightarrow> uint16 \<rightharpoonup> Node" where
  "memoryAt s xs i = map_of (nodes s) ++ (snapshotMap (take i xs) |` keys s)"

definition diffNew :: "SmartContractRegistry \<Rightarrow> Node list \<Rightarrow> Node list" where
  "diffNew s xs = filter (\<lambda>n. NodeID n \<notin> keys s) xs"

definition changedAt :: "SmartContractRegistry \<Rightarrow> Node list \<Rightarrow> nat \<Rightarrow> bool" where
  "changedAt s xs i \<longleftrightarrow>
     NodeID (xs ! i) \<in> changedNodeNotifiers s \<and>
     (case memoryAt s xs i (NodeID (xs ! i)) of
        None \<Rightarrow> False
      | Some existingValue \<Rightarrow> \<not> Equals (xs ! i) existingValue)"

definition diffChanged :: "SmartContractRegistry \<Rightarrow> Node list \<Rightarrow> Node list" where
  "diffChanged s xs = map (\<lambda>i. xs ! i) (filter (changedAt s xs) [0..<length xs])"

text \<open>The ids that some batch of new nodes in a sequence of notifications has carried.\<close>

fun announced :: "notification list \<Rightarrow> uint16 set" where
  "announced [] = {}"
| "announced (NewNodes ns # tr) = NodeID ` set ns \<union> announced tr"
| "announced (ChangedNode n # tr) = announced tr"

text \<open>
  A sequence of notifications is in order when every changed-node notification comes
  after a batch of new nodes that carries its id; \<open>seen\<close> are the ids carried so far.
\<close>

fun newBeforeChange :: "uint16 set \<Rightarrow> notification list \<Rightarrow> bool" where
  "newBeforeChange seen [] = True"
| "newBeforeChange seen (NewNodes ns # tr) = newBeforeChange (seen \<union> NodeID ` set ns) tr"
| "newBeforeChange seen (ChangedNode n # tr) = (NodeID n \<in> seen \<and> newBeforeChange seen tr)"

text \<open>The invariant of a run: the ids of the roster have been announced, and the
  notifications are in order.\<close>

definition ordered :: "SmartContractRegistry \<Rightarrow> bool" where
  "ordered s \<longleftrightarrow> keys s \<subseteq> announced (triggered s) \<and> newBeforeChange {} (triggered s)"

section \<open>The syncer of the replication tests\<close>

text \<open>
  \<^verbatim>\<open>randomTopicSyncer.Fetch\<close> picks a node at random and asks it for each content
  id in turn. A content id (\<^verbatim>\<open>mh.Multihash\<close>) is a byte string.
\<close>

type_synonym Multihash = "byte list"

text \<open>
  Modelled from the spec: the event type of the replication engine (its declaration is
  not among the sources). "Fields: topic (string, non-empty), parents (set of ContentID,
  possibly empty for genesis events), payload (byte string, opaque to the engine), cid
  (ContentID, derived)."
\<close>

record Event =
  topic :: string
  parents :: "Multihash list"
  payload :: "byte list"
  cid :: Multihash

datatype crdtError = NotFound

text \<open>
  Modelled from the spec: a replica, as far as \<^verbatim>\<open>Fetch\<close> reads it: for each topic
  the events its store holds (committed or pending), with "Get(cid): returns the event or
  NotFound", the content id being "the primary key of events within a topic". The
  method \<^verbatim>\<open>Node.Get\<close> of the replication package is not among the sources.
\<close>

record crdtNode =
  store :: "string \<Rightarrow> Event list"

definition Get :: "crdtNode \<Rightarrow> string \<Rightarrow> Multihash \<Rightarrow> crdtError + Event" where
  "Get node t c =
     (case find (\<lambda>ev. cid ev = c) (store node t) of
        None \<Rightarrow> Inl NotFound
      | Some ev \<Rightarrow> Inr ev)"

record randomTopicSyncer =
  syncerNodes :: "crdtNode list"
  syncerNode :: crdtNode
  syncerTopic :: string

datatype syncerPanic = IntnInvalidArgument

text \<open>
  \<^verbatim>\<open>GetRandomNode\<close>: \<^verbatim>\<open>s.nodes[rand.Intn(len(s.nodes))]\<close>. The random source is
  the parameter \<open>rnd\<close>; \<^verbatim>\<open>rand.Intn(n)\<close> is then \<open>rnd mod n\<close>, and it panics for
  \<open>n = 0\<close>.
\<close>

definition GetRandomNode :: "nat \<Rightarrow> randomTopicSyncer \<Rightarrow> syncerPanic + crdtNode" where
  "GetRandomNode rnd s =
     (if length (syncerNodes s) = 0 then Inl IntnInvalidArgument
      else Inr (syncerNodes s ! (rnd mod length (syncerNodes s))))"

text \<open>The loop of \<^verbatim>\<open>Fetch\<close>; \<open>get\<close> is \<^verbatim>\<open>node.Get(s.topic, _)\<close> of the chosen
  node.\<close>

fun Fetch_loop ::
  "(Multihash \<Rightarrow> crdtError + Event) \<Rightarrow> Multihash list \<Rightarrow> Event list \<Rightarrow>
     Event list \<times> crdtError option" where
  "Fetch_loop get [] results = (results, None)"
| "Fetch_loop get (c # cids) results =
     (case get c of
        Inl e \<Rightarrow> ([], Some e)
      | Inr ev \<Rightarrow> Fetch_loop get cids (results @ [ev]))"

text \<open>The result of \<^verbatim>\<open>Fetch\<close> is a panic or the pair that it returns: the events
  (nil is the empty list) and the error (nil is \<open>None\<close>).\<close>

definition Fetch ::
  "nat \<Rightarrow> randomTopicSyncer \<Rightarrow> Multihash list \<Rightarrow> syncerPanic + (Event list \<times> crdtError option)" where
  "Fetch rnd s cids =
     (case GetRandomNode rnd s of
        Inl p \<Rightarrow> Inl p
      | Inr chosen \<Rightarrow> Inr (Fetch_loop (Get chosen (syncerTopic s)) cids []))"

section \<open>The order of envelopes in the test helper\<close>

text \<open>
  \<^verbatim>\<open>requireEnvelopesEqual\<close> sorts both lists with the same comparison. An envelope
  has a \<^verbatim>\<open>uint64\<close> timestamp and a message.
\<close>

record Envelope =
  ContentTopic :: string
  TimestampNs :: uint64
  Message :: "byte list"

text \<open>\<^verbatim>\<open>bytes.Compare\<close>: the lexicographic order of byte strings, as \<open>-1\<close>, \<open>0\<close>
  or \<open>1\<close>.\<close>

fun bytes_Compare :: "byte list \<Rightarrow> byte list \<Rightarrow> int" where
  "bytes_Compare [] [] = 0"
| "bytes_Compare [] (b # bs) = - 1"
| "bytes_Compare (a # as) [] = 1"
| "bytes_Compare (a # as) (b # bs) =
     (if a < b then - 1 else if b < a then 1 else bytes_Compare as bs)"

text \<open>
  The comparison passed to \<^verbatim>\<open>sort.Slice\<close>:
  \<^verbatim>\<open>d := int(x.TimestampNs) - int(y.TimestampNs); if d != 0 { return d < 0 }\<close>, then
  \<^verbatim>\<open>bytes.Compare(x.Message, y.Message) < 0\<close>. Go's \<^verbatim>\<open>int\<close> has 64 bits on the
  platforms the node runs on: the conversion from \<^verbatim>\<open>uint64\<close> keeps the bits, the
  subtraction wraps, and \<open>d\<close> is the difference of the two words read as a signed
  number.
\<close>

definition envelopeLess :: "Envelope \<Rightarrow> Envelope \<Rightarrow> bool" where
  "envelopeLess x y =
     (let d = sint (TimestampNs x - TimestampNs y)
      in if d \<noteq> 0 then d < 0 else bytes_Compare (Message x) (Message y) < 0)"

section \<open>Concrete inputs\<close>

text \<open>
  A stand-in for \<^verbatim>\<open>crypto.UnmarshalPubkey\<close> where a concrete run is evaluated. The
  library accepts only the 65 bytes of an uncompressed point (tag 4) that lies on the
  curve; the stand-in keeps the length and the tag. The keys of the records below are too
  short, so that the library and the stand-in both reject them.
\<close>

definition exampleUnmarshal :: unmarshalPubkey where
  "exampleUnmarshal bs = (if length bs = 65 \<and> take 1 bs = [4] then Some bs else None)"

definition rawNode :: "nat \<Rightarrow> byte list \<Rightarrow> string \<Rightarrow> bool \<Rightarrow> NodesNodeWithId" where
  "rawNode i k a h =
     \<lparr> NodeId = of_nat i,
       Node = \<lparr> SigningKeyPub = k, NodesNode.HttpAddress = a, NodesNode.IsHealthy = h \<rparr> \<rparr>"

definition raw0 :: NodesNodeWithId where
  "raw0 = rawNode 0 [4, 0] ''https://n0'' True"

definition raw1 :: NodesNodeWithId where
  "raw1 = rawNode 1 [4, 1] ''http://n1'' True"

definition raw1_unhealthy :: NodesNodeWithId where
  "raw1_unhealthy = rawNode 1 [4, 1] ''http://n1'' False"

definition raw2 :: NodesNodeWithId where
  "raw2 = rawNode 2 [4, 2] ''http://n2'' True"

text \<open>The node of scenario S5: the key is the text "not-a-key", the address "ftp://x".\<close>

definition raw3 :: NodesNodeWithId where
  "raw3 = rawNode 3 [110, 111, 116, 45, 97, 45, 107, 101, 121] ''ftp://x'' True"

definition node1 :: Node where
  "node1 = \<lparr> NodeID = 1, SigningKey = None, HttpAddress = ''http://n1'',
             IsHealthy = True, IsValidConfig = False \<rparr>"

definition node1_unhealthy :: Node where
  "node1_unhealthy = node1\<lparr>Node.IsHealthy := False\<rparr>"

definition node2 :: Node where
  "node2 = \<lparr> NodeID = 2, SigningKey = None, HttpAddress = ''http://n2'',
             IsHealthy = True, IsValidConfig = False \<rparr>"

definition node3 :: Node where
  "node3 = \<lparr> NodeID = 3, SigningKey = None, HttpAddress = ''ftp://x'',
             IsHealthy = True, IsValidConfig = False \<rparr>"

text \<open>A registry that holds node 1 and has no subscriber.\<close>

definition registryWithNode1 :: SmartContractRegistry where
  "registryWithNode1 =
     \<lparr> nodes = [(1, node1)], changedNodeNotifiers = {}, triggered = [NewNodes [node1]],
       errorLog = [], loopRunning = True \<rparr>"

text \<open>A registry with a subscriber for id 1, after a refresh that fetched the two
  records of id 1 in one list.\<close>

definition registryAfterDuplicates :: SmartContractRegistry where
  "registryAfterDuplicates =
     \<lparr> nodes = [(1, node1_unhealthy)], changedNodeNotifiers = {1},
       triggered = [NewNodes [node1, node1_unhealthy]], errorLog = [], loopRunning = False \<rparr>"

text \<open>Two envelopes, one at time 0 and one at time \<open>2 ^ 63 + 1\<close>.\<close>

definition envelopeEarly :: Envelope where
  "envelopeEarly = \<lparr> ContentTopic = ''t'', TimestampNs = 0, Message = [1] \<rparr>"

definition envelopeLate :: Envelope where
  "envelopeLate = \<lparr> ContentTopic = ''t'', TimestampNs = 9223372036854775809, Message = [1] \<rparr>"

text \<open>A replica that holds one event on topic "t0", and a syncer over it.\<close>

definition exampleEvent :: Event where
  "exampleEvent = \<lparr> topic = ''t0'', parents = [], payload = [104, 105], cid = [18, 1] \<rparr>"

definition exampleReplica :: crdtNode where
  "exampleReplica = \<lparr> store = (\<lambda>t. if t = ''t0'' then [exampleEvent] else []) \<rparr>"

definition exampleSyncer :: randomTopicSyncer where
  "exampleSyncer = \<lparr> syncerNodes = [exampleReplica], syncerNode = exampleReplica, syncerTopic = ''t0'' \<rparr>"

section \<open>Facts about the refresh\<close>

lemma Equals_iff: "Equals n other \<longleftrightarrow> n = other"
  by (cases n; cases other) (auto simp: Equals_def)

lemma keys_dom: "keys s = dom (map_of (nodes s))"
  by (simp add: keys_def dom_map_of_conv_image_fst)

lemma snapshotMap_Nil: "snapshotMap [] = Map.empty"
  by (simp add: snapshotMap_def)

lemma snapshotMap_Cons: "snapshotMap (x # xs) = [NodeID x \<mapsto> x] ++ snapshotMap xs"
  by (simp add: snapshotMap_def map_of_append)

lemma snapshotMap_filter:
  "snapshotMap (filter (\<lambda>n. Q (NodeID n)) xs) k = (if Q k then snapshotMap xs k else None)"
  by (induction xs) (auto simp: snapshotMap_Nil snapshotMap_Cons map_add_def split: option.splits)

lemma snapshotMap_SomeD: "snapshotMap xs k = Some n \<Longrightarrow> n \<in> set xs \<and> NodeID n = k"
  by (auto simp: snapshotMap_def dest!: map_of_SomeD)

lemma snapshotMap_None_iff: "snapshotMap xs k = None \<longleftrightarrow> k \<notin> NodeID ` set xs"
  by (simp add: snapshotMap_def map_of_eq_None_iff image_image)

lemma snapshotMap_distinct:
  "distinct (map NodeID xs) \<Longrightarrow> n \<in> set xs \<Longrightarrow> snapshotMap xs (NodeID n) = Some n"
  unfolding snapshotMap_def
  by (rule map_of_is_SomeI) (auto simp: rev_map[symmetric] comp_def distinct_map)

lemma processChangedNode_simps:
  "nodes (processChangedNode n s) = AList.update (NodeID n) n (nodes s)"
  "changedNodeNotifiers (processChangedNode n s) = changedNodeNotifiers s"
  "triggered (processChangedNode n s) =
     triggered s @ (if NodeID n \<in> changedNodeNotifiers s then [ChangedNode n] else [])"
  "errorLog (processChangedNode n s) = errorLog s"
  "loopRunning (processChangedNode n s) = loopRunning s"
  by (simp_all add: processChangedNode_def Let_def)

lemma fold_storeNode:
  "nodes (fold storeNode ns s) = fold (\<lambda>n al. AList.update (NodeID n) n al) ns (nodes s) \<and>
   changedNodeNotifiers (fold storeNode ns s) = changedNodeNotifiers s \<and>
   triggered (fold storeNode ns s) = triggered s \<and>
   errorLog (fold storeNode ns s) = errorLog s \<and>
   loopRunning (fold storeNode ns s) = loopRunning s"
  by (induction ns arbitrary: s) (simp_all add: storeNode_def)

lemma map_of_fold_update:
  "map_of (fold (\<lambda>n al. AList.update (NodeID n) n al) ns al) = map_of al ++ snapshotMap ns"
  by (induction ns arbitrary: al) (simp_all add: snapshotMap_Nil snapshotMap_Cons update_conv')

lemma processNewNodes_simps:
  "map_of (nodes (processNewNodes ns s)) = map_of (nodes s) ++ snapshotMap ns"
  "changedNodeNotifiers (processNewNodes ns s) = changedNodeNotifiers s"
  "triggered (processNewNodes ns s) = triggered s @ [NewNodes ns]"
  "errorLog (processNewNodes ns s) = errorLog s"
  "loopRunning (processNewNodes ns s) = loopRunning s"
  by (simp_all add: processNewNodes_def fold_storeNode map_of_fold_update)

lemma keys_processChangedNode: "keys (processChangedNode n s) = insert (NodeID n) (keys s)"
  by (simp add: keys_def processChangedNode_simps dom_update)

lemma loop_frame:
  "refreshData_loop xs s acc = (s', acc') \<Longrightarrow>
     acc' = acc @ filter (\<lambda>n. NodeID n \<notin> keys s) xs \<and> keys s' = keys s \<and>
     changedNodeNotifiers s' = changedNodeNotifiers s \<and> errorLog s' = errorLog s \<and>
     loopRunning s' = loopRunning s"
proof (induction xs arbitrary: s acc)
  case Nil
  then show ?case by simp
next
  case (Cons x xs)
  show ?case
  proof (cases "map_of (nodes s) (NodeID x)")
    case None
    then have "NodeID x \<notin> keys s" by (auto simp: keys_dom)
    with Cons.IH[of s "acc @ [x]"] Cons.prems None show ?thesis by simp
  next
    case (Some old)
    then have in_keys: "NodeID x \<in> keys s" by (auto simp: keys_dom)
    then have "keys (processChangedNode x s) = keys s"
      by (auto simp: keys_processChangedNode)
    with Cons.IH[of "processChangedNode x s" acc] Cons.IH[of s acc] Cons.prems Some in_keys
    show ?thesis by (auto simp: processChangedNode_simps split: if_splits)
  qed
qed

lemma loop_nodes:
  "refreshData_loop xs s acc = (s', acc') \<Longrightarrow>
     map_of (nodes s') = map_of (nodes s) ++ (snapshotMap xs |` keys s)"
proof (induction xs arbitrary: s acc)
  case Nil
  then show ?case by (simp add: snapshotMap_Nil)
next
  case (Cons x xs)
  show ?case
  proof (cases "map_of (nodes s) (NodeID x)")
    case None
    then have "NodeID x \<notin> keys s" by (auto simp: keys_dom)
    then have "snapshotMap (x # xs) |` keys s = snapshotMap xs |` keys s"
      by (auto simp: snapshotMap_Cons restrict_map_def map_add_def fun_eq_iff split: option.splits)
    with Cons.IH[of s "acc @ [x]"] Cons.prems None show ?thesis by simp
  next
    case (Some old)
    then have in_keys: "NodeID x \<in> keys s" by (auto simp: keys_dom)
    have upd: "(map_of (nodes s))(NodeID x \<mapsto> x) ++ (snapshotMap xs |` keys s)
               = map_of (nodes s) ++ (snapshotMap (x # xs) |` keys s)"
      using in_keys
      by (auto simp: snapshotMap_Cons restrict_map_def map_add_def fun_eq_iff split: option.splits)
    show ?thesis
    proof (cases "Equals x old")
      case True
      then have "(map_of (nodes s))(NodeID x \<mapsto> x) = map_of (nodes s)"
        using Some by (auto simp: Equals_iff fun_eq_iff)
      with Cons.IH[of s acc] Cons.prems Some True upd show ?thesis by simp
    next
      case False
      have k: "keys (processChangedNode x s) = keys s"
        using in_keys by (auto simp: keys_processChangedNode)
      have step: "refreshData_loop xs (processChangedNode x s) acc = (s', acc')"
        using Cons.prems Some False by simp
      have "map_of (nodes s') = map_of (nodes (processChangedNode x s)) ++
              (snapshotMap xs |` keys (processChangedNode x s))"
        by (rule Cons.IH[OF step])
      also have "\<dots> = (map_of (nodes s))(NodeID x \<mapsto> x) ++ (snapshotMap xs |` keys s)"
        by (simp only: k processChangedNode_simps update_conv')
      also note upd
      finally show ?thesis .
    qed
  qed
qed

lemma loop_triggered:
  "refreshData_loop xs s acc = (s', acc') \<Longrightarrow>
     \<exists>ch. triggered s' = triggered s @ map ChangedNode ch \<and>
          (\<forall>n\<in>set ch. n \<in> set xs \<and> NodeID n \<in> keys s \<and> NodeID n \<in> changedNodeNotifiers s) \<and>
          (\<forall>n\<in>set xs. \<forall>old. map_of (nodes s) (NodeID n) = Some old \<and> \<not> Equals n old \<and>
               NodeID n \<in> changedNodeNotifiers s \<longrightarrow> n \<in> set ch)"
proof (induction xs arbitrary: s acc)
  case Nil
  then show ?case by simp
next
  case (Cons x xs)
  show ?case
  proof (cases "map_of (nodes s) (NodeID x)")
    case None
    with Cons.prems have "refreshData_loop xs s (acc @ [x]) = (s', acc')" by simp
    from Cons.IH[OF this] obtain ch where
      "triggered s' = triggered s @ map ChangedNode ch"
      "\<forall>n\<in>set ch. n \<in> set xs \<and> NodeID n \<in> keys s \<and> NodeID n \<in> changedNodeNotifiers s"
      "\<forall>n\<in>set xs. \<forall>old. map_of (nodes s) (NodeID n) = Some old \<and> \<not> Equals n old \<and>
               NodeID n \<in> changedNodeNotifiers s \<longrightarrow> n \<in> set ch"
      by blast
    with None show ?thesis by (intro exI[of _ ch]) auto
  next
    case (Some old)
    then have in_keys: "NodeID x \<in> keys s" by (auto simp: keys_dom)
    show ?thesis
    proof (cases "Equals x old")
      case True
      with Cons.prems Some have "refreshData_loop xs s acc = (s', acc')" by simp
      from Cons.IH[OF this] obtain ch where
        "triggered s' = triggered s @ map ChangedNode ch"
        "\<forall>n\<in>set ch. n \<in> set xs \<and> NodeID n \<in> keys s \<and> NodeID n \<in> changedNodeNotifiers s"
        "\<forall>n\<in>set xs. \<forall>old. map_of (nodes s) (NodeID n) = Some old \<and> \<not> Equals n old \<and>
               NodeID n \<in> changedNodeNotifiers s \<longrightarrow> n \<in> set ch"
        by blast
      with Some True show ?thesis by (intro exI[of _ ch]) auto
    next
      case False
      let ?s1 = "processChangedNode x s"
      let ?hd = "if NodeID x \<in> changedNodeNotifiers s then [x] else []"
      have k: "keys ?s1 = keys s" using in_keys by (auto simp: keys_processChangedNode)
      have m: "map_of (nodes ?s1) = (map_of (nodes s))(NodeID x \<mapsto> x)"
        by (simp add: processChangedNode_simps update_conv')
      from Cons.prems Some False have "refreshData_loop xs ?s1 acc = (s', acc')" by simp
      from Cons.IH[OF this] obtain ch where
        t: "triggered s' = triggered ?s1 @ map ChangedNode ch" and
        sub: "\<forall>n\<in>set ch. n \<in> set xs \<and> NodeID n \<in> keys ?s1 \<and> NodeID n \<in> changedNodeNotifiers ?s1" and
        all: "\<forall>n\<in>set xs. \<forall>old. map_of (nodes ?s1) (NodeID n) = Some old \<and> \<not> Equals n old \<and>
               NodeID n \<in> changedNodeNotifiers ?s1 \<longrightarrow> n \<in> set ch"
        by blast
      have 1: "triggered s' = triggered s @ map ChangedNode (?hd @ ch)"
        using t by (simp add: processChangedNode_simps)
      have 2: "\<forall>n\<in>set (?hd @ ch). n \<in> set (x # xs) \<and> NodeID n \<in> keys s \<and>
                  NodeID n \<in> changedNodeNotifiers s"
        using sub in_keys by (auto simp: k processChangedNode_simps)
      have 3: "n \<in> set (?hd @ ch)"
        if "n \<in> set (x # xs)" "map_of (nodes s) (NodeID n) = Some old'" "\<not> Equals n old'"
           "NodeID n \<in> changedNodeNotifiers s" for n old'
      proof (cases "n = x")
        case True
        with that show ?thesis by simp
      next
        case False
        with that have nxs: "n \<in> set xs" by simp
        have "\<exists>cur. map_of (nodes ?s1) (NodeID n) = Some cur \<and> \<not> Equals n cur"
          using that False by (auto simp: m Equals_iff)
        with all nxs that show ?thesis by (auto simp: processChangedNode_simps)
      qed
      from 1 2 3 show ?thesis by (intro exI[of _ "?hd @ ch"]) blast
    qed
  qed
qed

lemma NodeID_convertNode: "NodeID (convertNode um r) = NodeId r"
  by (simp add: convertNode_def Let_def)

lemma refreshData_Inl: "refreshData um (Inl e) s = Inl e"
  by (simp add: refreshData_def loadFromContract_def)

lemma refreshData_effect:
  assumes "refreshData um (Inr raws) s = Inr s'"
  shows "\<exists>ch. triggered s' = triggered s @ map ChangedNode ch @
                 (if filter (\<lambda>n. NodeID n \<notin> keys s) (map (convertNode um) raws) = [] then []
                  else [NewNodes (filter (\<lambda>n. NodeID n \<notin> keys s) (map (convertNode um) raws))]) \<and>
          (\<forall>n\<in>set ch. n \<in> set (map (convertNode um) raws) \<and> NodeID n \<in> keys s \<and>
               NodeID n \<in> changedNodeNotifiers s) \<and>
          (\<forall>n\<in>set (map (convertNode um) raws). \<forall>old.
               map_of (nodes s) (NodeID n) = Some old \<and> \<not> Equals n old \<and>
               NodeID n \<in> changedNodeNotifiers s \<longrightarrow> n \<in> set ch)"
    and "map_of (nodes s') = map_of (nodes s) ++ snapshotMap (map (convertNode um) raws)"
    and "changedNodeNotifiers s' = changedNodeNotifiers s"
    and "errorLog s' = errorLog s" and "loopRunning s' = loopRunning s"
proof -
  let ?xs = "map (convertNode um) raws"
  let ?new = "filter (\<lambda>n. NodeID n \<notin> keys s) ?xs"
  obtain s1 acc where loop: "refreshData_loop ?xs s [] = (s1, acc)"
    by (cases "refreshData_loop ?xs s []") auto
  from loop_frame[OF loop] have acc: "acc = ?new" and k1: "keys s1 = keys s"
    and f1: "changedNodeNotifiers s1 = changedNodeNotifiers s" "errorLog s1 = errorLog s"
      "loopRunning s1 = loopRunning s"
    by simp_all
  have s': "s' = (if ?new = [] then s1 else processNewNodes ?new s1)"
    using assms loop acc by (auto simp: refreshData_def loadFromContract_def)
  from loop_triggered[OF loop] obtain ch where
    t: "triggered s1 = triggered s @ map ChangedNode ch" and
    rest: "\<forall>n\<in>set ch. n \<in> set ?xs \<and> NodeID n \<in> keys s \<and> NodeID n \<in> changedNodeNotifiers s"
      "\<forall>n\<in>set ?xs. \<forall>old. map_of (nodes s) (NodeID n) = Some old \<and> \<not> Equals n old \<and>
               NodeID n \<in> changedNodeNotifiers s \<longrightarrow> n \<in> set ch"
    by blast
  have "triggered s' = triggered s @ map ChangedNode ch @ (if ?new = [] then [] else [NewNodes ?new])"
    using t by (simp add: s' processNewNodes_simps)
  with rest show "\<exists>ch. triggered s' = triggered s @ map ChangedNode ch @
                 (if ?new = [] then [] else [NewNodes ?new]) \<and>
          (\<forall>n\<in>set ch. n \<in> set ?xs \<and> NodeID n \<in> keys s \<and> NodeID n \<in> changedNodeNotifiers s) \<and>
          (\<forall>n\<in>set ?xs. \<forall>old. map_of (nodes s) (NodeID n) = Some old \<and> \<not> Equals n old \<and>
               NodeID n \<in> changedNodeNotifiers s \<longrightarrow> n \<in> set ch)"
    by blast
  have n1: "map_of (nodes s1) = map_of (nodes s) ++ (snapshotMap ?xs |` keys s)"
    by (rule loop_nodes[OF loop])
  have "map_of (nodes s1) ++ snapshotMap ?new = map_of (nodes s) ++ snapshotMap ?xs"
  proof
    fix k
    show "(map_of (nodes s1) ++ snapshotMap ?new) k = (map_of (nodes s) ++ snapshotMap ?xs) k"
      using snapshotMap_filter[of "\<lambda>i. i \<notin> keys s" ?xs k]
      by (auto simp: n1 map_add_def restrict_map_def keys_dom split: option.splits)
  qed
  moreover have "?new = [] \<Longrightarrow> snapshotMap ?new = Map.empty" by (simp add: snapshotMap_Nil)
  ultimately show "map_of (nodes s') = map_of (nodes s) ++ snapshotMap ?xs"
    by (auto simp: s' processNewNodes_simps)
  show "changedNodeNotifiers s' = changedNodeNotifiers s" "errorLog s' = errorLog s"
    "loopRunning s' = loopRunning s"
    using f1 by (simp_all add: s' processNewNodes_simps)
qed

section \<open>Facts about runs\<close>

lemma announced_append: "announced (a @ b) = announced a \<union> announced b"
  by (induction a rule: announced.induct) auto

lemma announced_iff:
  "k \<in> announced tr \<longleftrightarrow> (\<exists>ns. NewNodes ns \<in> set tr \<and> k \<in> NodeID ` set ns)"
  by (induction tr rule: announced.induct) auto

lemma announced_map_ChangedNode: "announced (map ChangedNode ch) = {}"
  by (induction ch) auto

lemma newBeforeChange_append:
  "newBeforeChange seen (a @ b) \<longleftrightarrow>
     newBeforeChange seen a \<and> newBeforeChange (seen \<union> announced a) b"
  by (induction seen a rule: newBeforeChange.induct) (auto simp: Un_assoc)

lemma newBeforeChange_map_ChangedNode:
  "newBeforeChange seen (map ChangedNode ch) \<longleftrightarrow> (\<forall>n\<in>set ch. NodeID n \<in> seen)"
  by (induction ch) auto

lemma newBeforeChange_split:
  "newBeforeChange seen (pre @ ChangedNode n # post) \<Longrightarrow> NodeID n \<in> seen \<union> announced pre"
  by (simp add: newBeforeChange_append)

lemma keys_after_refresh:
  assumes "refreshData um (Inr raws) s = Inr s'"
  shows "keys s' = keys s \<union> NodeId ` set raws"
proof -
  have "keys s' = dom (map_of (nodes s) ++ snapshotMap (map (convertNode um) raws))"
    using refreshData_effect(2)[OF assms] by (simp add: keys_dom)
  also have "\<dots> = keys s \<union> NodeId ` set raws"
    by (auto simp: keys_dom dom_def snapshotMap_None_iff NodeID_convertNode image_image)
  finally show ?thesis .
qed

lemma ordered_refreshData:
  assumes inv: "ordered s" and r: "refreshData um (Inr raws) s = Inr s'"
  shows "ordered s'"
proof -
  let ?xs = "map (convertNode um) raws"
  let ?new = "filter (\<lambda>n. NodeID n \<notin> keys s) ?xs"
  let ?news = "if ?new = [] then [] else [NewNodes ?new]"
  from refreshData_effect(1)[OF r] obtain ch where
    t: "triggered s' = triggered s @ map ChangedNode ch @ ?news" and
    ch: "\<forall>n\<in>set ch. n \<in> set ?xs \<and> NodeID n \<in> keys s \<and> NodeID n \<in> changedNodeNotifiers s"
    by blast
  have an: "announced (triggered s') = announced (triggered s) \<union> NodeID ` set ?new"
    by (auto simp: t announced_append announced_map_ChangedNode filter_empty_conv)
  have ids: "NodeID ` set ?new = NodeId ` set raws - keys s"
    by (force simp: NodeID_convertNode)
  have "keys s' \<subseteq> announced (triggered s')"
    using inv unfolding an ids keys_after_refresh[OF r] ordered_def by blast
  moreover have "newBeforeChange {} (triggered s')"
    using inv ch
    by (auto simp: t ordered_def newBeforeChange_append newBeforeChange_map_ChangedNode)
  ultimately show ?thesis by (simp add: ordered_def)
qed

lemma ordered_cong:
  "nodes s' = nodes s \<Longrightarrow> triggered s' = triggered s \<Longrightarrow> ordered s' = ordered s"
  by (simp add: ordered_def keys_def)

lemma ordered_perform: "ordered s \<Longrightarrow> ordered (perform um a s)"
proof (cases a)
  case (DoStart res)
  assume inv: "ordered s"
  show ?thesis
  proof (cases res)
    case (Inl e)
    with DoStart inv show ?thesis by (simp add: Start_def refreshData_Inl)
  next
    case (Inr raws)
    show ?thesis
    proof (cases "refreshData um (Inr raws) s")
      case (Inl e)
      with DoStart Inr inv show ?thesis by (simp add: Start_def)
    next
      case s': (Inr s')
      from ordered_refreshData[OF inv s'] have "ordered (s'\<lparr>loopRunning := True\<rparr>)"
        by (simp add: ordered_cong[of "s'\<lparr>loopRunning := True\<rparr>" s'])
      with DoStart Inr s' show ?thesis by (simp add: Start_def)
    qed
  qed
next
  case (DoTick res)
  assume inv: "ordered s"
  show ?thesis
  proof (cases "refreshData um res s")
    case (Inl e)
    have "ordered (s\<lparr>errorLog := errorLog s @ [e]\<rparr>)"
      using inv by (simp add: ordered_cong[of "s\<lparr>errorLog := errorLog s @ [e]\<rparr>" s])
    with DoTick Inl inv show ?thesis by (simp add: tick_def)
  next
    case s': (Inr s')
    then obtain raws where "res = Inr raws"
      by (cases res) (auto simp: refreshData_Inl)
    with s' inv have "ordered s'" by (auto intro: ordered_refreshData)
    with DoTick s' inv show ?thesis by (simp add: tick_def)
  qed
next
  case (DoOnChangedNode i)
  assume "ordered s"
  then show ?thesis using DoOnChangedNode
    by (simp add: OnChangedNode_def ordered_def keys_def)
qed

lemma ordered_fold: "ordered s \<Longrightarrow> ordered (fold (perform um) acts s)"
  by (induction acts arbitrary: s) (auto intro: ordered_perform)

lemma ordered_run: "ordered (run um acts)"
  unfolding run_def
  by (rule ordered_fold) (simp add: ordered_def NewSmartContractRegistry_def keys_def)

lemmas eval_defs = refreshData_def loadFromContract_def convertNode_def Let_def HasPrefix_def
  processNewNodes_def storeNode_def processChangedNode_def Equals_def exampleUnmarshal_def
  rawNode_def raw0_def raw1_def raw1_unhealthy_def raw2_def raw3_def node1_def node2_def
  node3_def node1_unhealthy_def NewSmartContractRegistry_def Start_def tick_def
  OnChangedNode_def run_def GetNodes_def zeroNode_def registryWithNode1_def
  registryAfterDuplicates_def

section \<open>Facts about the other operations\<close>

lemma GetNodes_loop_length: "GetNodes_loop al out = Inr r \<Longrightarrow> length r = length out"
  by (induction al out rule: GetNodes_loop.induct) (auto split: if_splits)

lemma GetNodes_loop_returns_iff:
  "(\<exists>r. GetNodes_loop al out = Inr r) \<longleftrightarrow> (\<forall>k\<in>fst ` set al. unat k < length out)"
  by (induction al out rule: GetNodes_loop.induct) auto

lemma GetNodes_returns_iff:
  "(\<exists>r. GetNodes s = Inr r) \<longleftrightarrow> (\<forall>k\<in>keys s. unat k < length (nodes s))"
proof -
  have "(\<exists>r. GetNodes s = Inr r) \<longleftrightarrow>
        (\<exists>r. GetNodes_loop (nodes s) (replicate (length (nodes s)) zeroNode) = Inr r)"
    by (auto simp: GetNodes_def split: sum.splits)
  then show ?thesis by (simp add: GetNodes_loop_returns_iff keys_def)
qed

lemma loop_noop:
  "\<forall>n\<in>set xs. map_of (nodes s) (NodeID n) = Some n \<Longrightarrow> refreshData_loop xs s acc = (s, acc)"
  by (induction xs arbitrary: acc) (simp_all add: Equals_iff)

lemma Fetch_loop_error:
  "Fetch_loop get cids acc = (res, Some e) \<Longrightarrow> res = [] \<and> (\<exists>c\<in>set cids. get c = Inl e)"
  by (induction cids arbitrary: acc) (auto split: sum.splits)

lemma Fetch_loop_ok:
  "Fetch_loop get cids acc = (res, None) \<Longrightarrow>
     \<exists>evs. res = acc @ evs \<and> list_all2 (\<lambda>c ev. get c = Inr ev) cids evs"
proof (induction cids arbitrary: acc)
  case Nil
  then show ?case by simp
next
  case (Cons c cids)
  then obtain ev where g: "get c = Inr ev" and "Fetch_loop get cids (acc @ [ev]) = (res, None)"
    by (auto split: sum.splits)
  from Cons.IH[OF this(2)] obtain evs where
    "res = (acc @ [ev]) @ evs" "list_all2 (\<lambda>c ev. get c = Inr ev) cids evs" by blast
  with g show ?case by (intro exI[of _ "ev # evs"]) simp
qed

lemma Fetch_loop_fails_iff:
  "(\<exists>res e. Fetch_loop get cids acc = (res, Some e)) \<longleftrightarrow> (\<exists>c\<in>set cids. \<exists>e. get c = Inl e)"
  by (induction cids arbitrary: acc) (auto split: sum.splits)

lemma Get_cid: "Get nd t c = Inr ev \<Longrightarrow> cid ev = c \<and> ev \<in> set (store nd t)"
  by (auto simp: Get_def find_Some_iff split: option.splits)

lemma list_all2_Get_cid:
  "list_all2 (\<lambda>c ev. Get nd t c = Inr ev) cids evs \<Longrightarrow> map cid evs = cids"
  by (induction cids evs rule: list_all2_induct) (auto dest: Get_cid)

lemma refreshData_succeeds: "\<exists>s'. refreshData um (Inr raws) s = Inr s'"
  by (cases "refreshData_loop (map (convertNode um) raws) s []")
     (simp add: refreshData_def loadFromContract_def)

text \<open>The entries of the roster keep distinct ids, as the keys of a Go map do, so that
  the length of the list is the \<^verbatim>\<open>len\<close> of the map.\<close>

lemma distinct_processChangedNode:
  "distinct (map fst (nodes s)) \<Longrightarrow> distinct (map fst (nodes (processChangedNode n s)))"
  by (simp add: processChangedNode_simps distinct_update)

lemma distinct_fold_storeNode:
  "distinct (map fst (nodes s)) \<Longrightarrow> distinct (map fst (nodes (fold storeNode ns s)))"
  by (induction ns arbitrary: s) (simp_all add: storeNode_def distinct_update)

lemma distinct_loop:
  "refreshData_loop xs s acc = (s', acc') \<Longrightarrow> distinct (map fst (nodes s)) \<Longrightarrow>
     distinct (map fst (nodes s'))"
  by (induction xs s acc rule: refreshData_loop.induct)
     (auto split: option.splits if_splits intro: distinct_processChangedNode)

lemma distinct_refreshData:
  assumes "refreshData um res s = Inr s'" and "distinct (map fst (nodes s))"
  shows "distinct (map fst (nodes s'))"
proof -
  from assms(1) obtain raws where res: "res = Inr raws"
    by (cases res) (auto simp: refreshData_Inl)
  obtain s1 acc where l: "refreshData_loop (map (convertNode um) raws) s [] = (s1, acc)"
    by (cases "refreshData_loop (map (convertNode um) raws) s []") auto
  from distinct_loop[OF l assms(2)] have "distinct (map fst (nodes s1))" .
  then have "distinct (map fst (nodes (processNewNodes acc s1)))"
    by (simp add: processNewNodes_def distinct_fold_storeNode)
  with assms(1) res l \<open>distinct (map fst (nodes s1))\<close> show ?thesis
    by (auto simp: refreshData_def loadFromContract_def split: if_splits)
qed

lemma distinct_perform:
  "distinct (map fst (nodes s)) \<Longrightarrow> distinct (map fst (nodes (perform um a s)))"
  by (cases a)
     (auto simp: Start_def tick_def OnChangedNode_def split: sum.splits
           dest: distinct_refreshData)

lemma distinct_run: "distinct (map fst (nodes (run um acts)))"
proof -
  have "distinct (map fst (nodes s)) \<Longrightarrow> distinct (map fst (nodes (fold (perform um) acts s)))"
    for s
    by (induction acts arbitrary: s) (auto intro: distinct_perform)
  then show ?thesis by (simp add: run_def NewSmartContractRegistry_def)
qed

lemma GetNodes_loop_untouched:
  "GetNodes_loop al out = Inr r \<Longrightarrow> i \<notin> unat ` fst ` set al \<Longrightarrow> r ! i = out ! i"
  by (induction al out rule: GetNodes_loop.induct) (auto split: if_splits)

lemma GetNodes_loop_values:
  "GetNodes_loop al out = Inr r \<Longrightarrow> distinct (map fst al) \<Longrightarrow> (k, nd) \<in> set al \<Longrightarrow>
     r ! unat k = nd"
proof (induction al out rule: GetNodes_loop.induct)
  case (1 out)
  then show ?case by simp
next
  case (2 idx node rest out)
  from "2.prems" have lt: "unat idx < length out" and
    r: "GetNodes_loop rest (out[unat idx := node]) = Inr r"
    by (auto split: if_splits)
  show ?case
  proof (cases "(k, nd) \<in> set rest")
    case True
    with "2.IH"[OF lt r] "2.prems" show ?thesis by simp
  next
    case False
    with "2.prems" have eq: "k = idx" "nd = node" by auto
    have "unat idx \<notin> unat ` fst ` set rest"
      using "2.prems"(2) by (force simp: image_iff word_unat_eq_iff[symmetric])
    from GetNodes_loop_untouched[OF r this] lt show ?thesis by (simp add: eq)
  qed
qed

lemma GetNodes_values:
  assumes "GetNodes s = Inr (ns, e)" and "distinct (map fst (nodes s))"
    and "(k, nd) \<in> set (nodes s)"
  shows "length ns = length (nodes s) \<and> ns ! unat k = nd"
proof -
  from assms(1) have l: "GetNodes_loop (nodes s) (replicate (length (nodes s)) zeroNode) = Inr ns"
    by (auto simp: GetNodes_def split: sum.splits)
  from GetNodes_loop_length[OF l] GetNodes_loop_values[OF l assms(2,3)] show ?thesis by simp
qed

text \<open>Where both timestamps are below \<open>2 ^ 63\<close> the comparison is the order by
  timestamp, then by message.\<close>

lemma sint_sub_small:
  fixes a b :: uint64
  assumes "a < 2 ^ 63" and "b < 2 ^ 63"
  shows "sint (a - b) = uint a - uint b"
proof -
  have ua: "uint a < 2 ^ 63" and ub: "uint b < 2 ^ 63"
    using assms by (simp_all add: word_less_alt)
  have "sint (a - b) = signed_take_bit 63 (take_bit 64 (uint a - uint b))"
    by (simp add: sint_uint uint_word_ariths take_bit_eq_mod)
  also have "\<dots> = signed_take_bit 63 (uint a - uint b)"
    by (simp add: signed_take_bit_take_bit)
  also have "\<dots> = uint a - uint b"
  proof (rule signed_take_bit_int_eq_self)
    have "0 \<le> uint a" "0 \<le> uint b" by simp_all
    with ua ub show "- (2 ^ 63) \<le> uint a - uint b" "uint a - uint b < 2 ^ 63"
      by linarith+
  qed
  finally show ?thesis .
qed

lemma envelopeLess_small:
  assumes "TimestampNs x < 2 ^ 63" and "TimestampNs y < 2 ^ 63"
  shows "envelopeLess x y \<longleftrightarrow>
           TimestampNs x < TimestampNs y \<or>
           TimestampNs x = TimestampNs y \<and> bytes_Compare (Message x) (Message y) < 0"
  using sint_sub_small[OF assms]
  by (auto simp: envelopeLess_def Let_def word_less_alt word_uint_eq_iff)

section \<open>The notifications of one refresh\<close>

text \<open>The changed-node notifications of a refresh are those of the diff, in the order
  of the fetched list.\<close>

lemma loop_append:
  "refreshData_loop (xs @ ys) s acc =
     (case refreshData_loop xs s acc of (s1, acc1) \<Rightarrow> refreshData_loop ys s1 acc1)"
  by (induction xs s acc rule: refreshData_loop.induct) (simp_all split: option.splits)

lemma memoryAt_snoc: "i \<le> length xs \<Longrightarrow> memoryAt s (xs @ [x]) i = memoryAt s xs i"
  by (simp add: memoryAt_def)

lemma changedAt_snoc: "i < length xs \<Longrightarrow> changedAt s (xs @ [x]) i = changedAt s xs i"
  by (simp add: changedAt_def memoryAt_snoc nth_append cong: option.case_cong)

lemma diffChanged_snoc:
  "diffChanged s (xs @ [x]) =
     diffChanged s xs @ (if changedAt s (xs @ [x]) (length xs) then [x] else [])"
proof -
  have f: "filter (changedAt s (xs @ [x])) [0..<length xs] = filter (changedAt s xs) [0..<length xs]"
    by (rule filter_cong) (simp_all add: changedAt_snoc)
  have m: "map (\<lambda>i. (xs @ [x]) ! i) (filter (changedAt s xs) [0..<length xs])
           = map (\<lambda>i. xs ! i) (filter (changedAt s xs) [0..<length xs])"
    by (rule map_cong) (simp_all add: nth_append)
  show ?thesis by (simp add: diffChanged_def f m)
qed

lemma loop_nodes_memoryAt:
  "refreshData_loop xs s acc = (s1, acc1) \<Longrightarrow> map_of (nodes s1) = memoryAt s xs (length xs)"
  by (simp add: memoryAt_def loop_nodes)

lemma loop_trace:
  "refreshData_loop xs s acc = (s', acc') \<Longrightarrow>
     triggered s' = triggered s @ map ChangedNode (diffChanged s xs)"
proof (induction xs arbitrary: s' acc' rule: rev_induct)
  case Nil
  then show ?case by (simp add: diffChanged_def)
next
  case (snoc x xs)
  obtain s1 acc1 where l: "refreshData_loop xs s acc = (s1, acc1)"
    by (cases "refreshData_loop xs s acc") auto
  from snoc.IH[OF l] have t1: "triggered s1 = triggered s @ map ChangedNode (diffChanged s xs)" .
  from loop_frame[OF l] have c1: "changedNodeNotifiers s1 = changedNodeNotifiers s" by simp
  have m1: "map_of (nodes s1) = memoryAt s (xs @ [x]) (length xs)"
    using loop_nodes_memoryAt[OF l] by (simp add: memoryAt_snoc)
  from snoc.prems l have step: "refreshData_loop [x] s1 acc1 = (s', acc')"
    by (simp add: loop_append)
  show ?case
  proof (cases "map_of (nodes s1) (NodeID x)")
    case None
    with step have "s' = s1" by simp
    moreover from None m1 have "\<not> changedAt s (xs @ [x]) (length xs)"
      by (simp add: changedAt_def)
    ultimately show ?thesis by (simp add: t1 diffChanged_snoc)
  next
    case (Some old)
    show ?thesis
    proof (cases "Equals x old")
      case True
      with step Some have "s' = s1" by simp
      moreover from True Some m1 have "\<not> changedAt s (xs @ [x]) (length xs)"
        by (simp add: changedAt_def)
      ultimately show ?thesis by (simp add: t1 diffChanged_snoc)
    next
      case False
      with step Some have s': "s' = processChangedNode x s1" by simp
      from False Some m1 have
        "changedAt s (xs @ [x]) (length xs) \<longleftrightarrow> NodeID x \<in> changedNodeNotifiers s"
        by (simp add: changedAt_def)
      then show ?thesis
        by (simp add: s' processChangedNode_simps t1 c1 diffChanged_snoc)
    qed
  qed
qed

lemma nth_notin_take: "distinct ys \<Longrightarrow> i < length ys \<Longrightarrow> ys ! i \<notin> set (take i ys)"
  by (auto simp: in_set_conv_nth nth_eq_iff_index_eq)

lemma snapshotMap_take_distinct:
  assumes "distinct (map NodeID xs)" and "i < length xs"
  shows "snapshotMap (take i xs) (NodeID (xs ! i)) = None"
proof -
  have "map NodeID xs ! i \<notin> set (take i (map NodeID xs))"
    using assms by (intro nth_notin_take) simp_all
  with assms(2) have "NodeID (xs ! i) \<notin> NodeID ` set (take i xs)"
    by (simp add: take_map)
  then show ?thesis by (simp add: snapshotMap_None_iff)
qed

lemma diffChanged_distinct:
  assumes "distinct (map NodeID xs)"
  shows "diffChanged s xs =
           filter (\<lambda>n. NodeID n \<in> changedNodeNotifiers s \<and>
                       (\<exists>old. map_of (nodes s) (NodeID n) = Some old \<and> \<not> Equals n old)) xs"
    (is "_ = filter ?Q xs")
proof -
  have c: "changedAt s xs i = ?Q (xs ! i)" if "i \<in> set [0..<length xs]" for i
  proof -
    from that have "i < length xs" by simp
    from snapshotMap_take_distinct[OF assms this]
    have "memoryAt s xs i (NodeID (xs ! i)) = map_of (nodes s) (NodeID (xs ! i))"
      by (simp add: memoryAt_def map_add_def restrict_map_def)
    then show ?thesis by (auto simp: changedAt_def split: option.splits)
  qed
  have "filter ?Q xs = filter ?Q (map (\<lambda>i. xs ! i) [0..<length xs])"
    by (simp add: map_nth)
  also have "\<dots> = map (\<lambda>i. xs ! i) (filter (\<lambda>i. ?Q (xs ! i)) [0..<length xs])"
    by (simp add: filter_map comp_def)
  also have "filter (\<lambda>i. ?Q (xs ! i)) [0..<length xs] = filter (changedAt s xs) [0..<length xs]"
    by (rule filter_cong) (simp_all add: c)
  finally show ?thesis by (simp add: diffChanged_def)
qed

lemma refreshData_trace:
  assumes "refreshData um (Inr raws) s = Inr s'"
  shows "triggered s' = triggered s @ map ChangedNode (diffChanged s (map (convertNode um) raws)) @
           (if diffNew s (map (convertNode um) raws) = [] then []
            else [NewNodes (diffNew s (map (convertNode um) raws))])"
proof -
  let ?xs = "map (convertNode um) raws"
  obtain s1 acc where loop: "refreshData_loop ?xs s [] = (s1, acc)"
    by (cases "refreshData_loop ?xs s []") auto
  from loop_frame[OF loop] have acc: "acc = diffNew s ?xs" by (simp add: diffNew_def)
  have s': "s' = (if diffNew s ?xs = [] then s1 else processNewNodes (diffNew s ?xs) s1)"
    using assms loop acc by (auto simp: refreshData_def loadFromContract_def)
  from loop_trace[OF loop] show ?thesis by (simp add: s' processNewNodes_simps)
qed

lemma unequal_in_diffChanged:
  assumes "refreshData um (Inr raws) s = Inr s'"
    and "n \<in> set (map (convertNode um) raws)" and "map_of (nodes s) (NodeID n) = Some old"
    and "\<not> Equals n old" and "NodeID n \<in> changedNodeNotifiers s"
  shows "n \<in> set (diffChanged s (map (convertNode um) raws))"
proof -
  let ?xs = "map (convertNode um) raws"
  from refreshData_effect(1)[OF assms(1)] obtain ch where
    t: "triggered s' = triggered s @ map ChangedNode ch @
          (if filter (\<lambda>n. NodeID n \<notin> keys s) ?xs = [] then []
           else [NewNodes (filter (\<lambda>n. NodeID n \<notin> keys s) ?xs)])" and
    a: "\<forall>n\<in>set ?xs. \<forall>old. map_of (nodes s) (NodeID n) = Some old \<and> \<not> Equals n old \<and>
           NodeID n \<in> changedNodeNotifiers s \<longrightarrow> n \<in> set ch"
    by blast
  from t refreshData_trace[OF assms(1)]
  have "map ChangedNode ch = map ChangedNode (diffChanged s ?xs)"
    by (simp add: diffNew_def)
  then have "ch = diffChanged s ?xs"
    by (simp add: inj_map_eq_map inj_on_def)
  with a assms(2-5) show ?thesis by blast
qed

text \<open>Whether \<^verbatim>\<open>GetNodes\<close> returns, and what it returns, does not depend on the
  order in which the roster is visited; only the index named by a panic does.\<close>

lemma GetNodes_loop_order:
  assumes "set al' = set al" and "distinct (map fst al)" and "distinct (map fst al')"
    and r: "GetNodes_loop al out = Inr r"
  shows "GetNodes_loop al' out = Inr r"
proof -
  from r have "\<exists>r. GetNodes_loop al out = Inr r" by blast
  then have "\<exists>r'. GetNodes_loop al' out = Inr r'"
    by (simp only: GetNodes_loop_returns_iff assms(1))
  then obtain r' where r': "GetNodes_loop al' out = Inr r'" by blast
  have len: "length r' = length r"
    using GetNodes_loop_length[OF r] GetNodes_loop_length[OF r'] by simp
  have "r' ! i = r ! i" for i
  proof (cases "i \<in> unat ` fst ` set al")
    case True
    then obtain k nd where kn: "(k, nd) \<in> set al" "i = unat k" by auto
    from GetNodes_loop_values[OF r assms(2) kn(1)]
      GetNodes_loop_values[OF r' assms(3)] kn assms(1)
    show ?thesis by simp
  next
    case False
    from GetNodes_loop_untouched[OF r False] GetNodes_loop_untouched[OF r'] False assms(1)
    show ?thesis by simp
  qed
  with len have "r' = r" by (simp add: list_eq_iff_nth_eq)
  with r' show ?thesis by simp
qed

lemma GetNodes_order:
  assumes "set (nodes s') = set (nodes s)" and "distinct (map fst (nodes s))"
    and "distinct (map fst (nodes s'))" and "GetNodes s = Inr r"
  shows "GetNodes s' = Inr r"
proof -
  have "distinct (nodes s)" "distinct (nodes s')"
    using assms(2,3) by (simp_all add: distinct_map)
  then have len: "length (nodes s') = length (nodes s)"
    using assms(1) by (metis distinct_card)
  from assms(4) obtain out where
    l: "GetNodes_loop (nodes s) (replicate (length (nodes s)) zeroNode) = Inr out" and
    r: "r = (out, None)"
    by (auto simp: GetNodes_def split: sum.splits)
  from GetNodes_loop_order[OF assms(1-3) l] show ?thesis
    by (simp add: GetNodes_def len r)
qed

section \<open>Properties\<close>

text \<open>
  C1. \<^verbatim>\<open>GetNodes\<close> is to return the nodes of the roster whatever their ids. It writes
  each node at the index given by its id into a slice whose length is the number of
  nodes, so it panics as soon as an id is not below that number: here for a roster that
  holds the one node with id 1, as the registry has it after a start that fetched it.
\<close>

theorem GetNodes_panics_for_id_1:
  "GetNodes (snd (Start exampleUnmarshal (Inr [raw1]) NewSmartContractRegistry))
     = Inl (IndexOutOfRange 1 1)"
  by (simp add: eval_defs)

text \<open>
  C2. In every run of the registry (starts, ticks and subscriptions in any order, one
  call after the other, on a fresh registry), a changed-node notification for an id
  comes after a new-nodes notification whose batch carries that id; and every id in the
  roster has been carried by a batch of new nodes, so that the changed path, which is
  taken only for ids in the roster, is taken only for ids that have been announced.
\<close>

theorem new_before_change:
  "(\<forall>pre n post. triggered (run um acts) = pre @ ChangedNode n # post \<longrightarrow>
      (\<exists>ns. NewNodes ns \<in> set pre \<and> NodeID n \<in> NodeID ` set ns)) \<and>
   (\<forall>k\<in>keys (run um acts).
      \<exists>ns. NewNodes ns \<in> set (triggered (run um acts)) \<and> k \<in> NodeID ` set ns)"
proof -
  have inv: "ordered (run um acts)" by (rule ordered_run)
  have "NodeID n \<in> announced pre"
    if "triggered (run um acts) = pre @ ChangedNode n # post" for pre n post
    using inv newBeforeChange_split[of "{}" pre n post] that by (simp add: ordered_def)
  moreover have "k \<in> announced (triggered (run um acts))" if "k \<in> keys (run um acts)" for k
    using inv that by (auto simp: ordered_def)
  ultimately show ?thesis by (simp add: announced_iff)
qed

theorem new_before_change_witness:
  "triggered (run exampleUnmarshal
      [DoStart (Inr [raw1]), DoOnChangedNode 1, DoTick (Inr [raw1_unhealthy, raw2])])
     = [NewNodes [node1]] @ ChangedNode node1_unhealthy # [NewNodes [node2]] \<and>
   (\<exists>ns. NewNodes ns \<in> set [NewNodes [node1]] \<and> NodeID node1_unhealthy \<in> NodeID ` set ns)"
proof -
  have h: "triggered (run exampleUnmarshal
      [DoStart (Inr [raw1]), DoOnChangedNode 1, DoTick (Inr [raw1_unhealthy, raw2])])
     = [NewNodes [node1]] @ ChangedNode node1_unhealthy # [NewNodes [node2]]"
    by (simp add: eval_defs)
  from new_before_change[of exampleUnmarshal
      "[DoStart (Inr [raw1]), DoOnChangedNode 1, DoTick (Inr [raw1_unhealthy, raw2])]"] h
  have "\<exists>ns. NewNodes ns \<in> set [NewNodes [node1]] \<and> NodeID node1_unhealthy \<in> NodeID ` set ns"
    by blast
  with h show ?thesis by blast
qed

text \<open>
  C3. A refresh that succeeds diffs the fetched list against the roster by id. Its
  notifications are, in this order: the changed nodes of the diff, each sent to the
  notifier of its id, and then, if the diff has new nodes, all of them in one batch on
  the new-nodes notifier; nothing else is sent. A fetched node whose id is in the roster
  with an unequal value, and whose id has a notifier, is among the changed nodes; for a
  fetched list with pairwise distinct ids the changed nodes are exactly these. No id
  leaves the roster: the roster after the refresh is the roster before it, overwritten
  with the fetched nodes.
\<close>

theorem refreshData_diff:
  assumes "refreshData um (Inr raws) s = Inr s'"
  shows "triggered s' =
           triggered s @ map ChangedNode (diffChanged s (map (convertNode um) raws)) @
           (if diffNew s (map (convertNode um) raws) = [] then []
            else [NewNodes (diffNew s (map (convertNode um) raws))]) \<and>
         (\<forall>n\<in>set (map (convertNode um) raws). \<forall>old.
             map_of (nodes s) (NodeID n) = Some old \<and> \<not> Equals n old \<and>
             NodeID n \<in> changedNodeNotifiers s \<longrightarrow>
             n \<in> set (diffChanged s (map (convertNode um) raws))) \<and>
         (distinct (map NodeId raws) \<longrightarrow>
            diffChanged s (map (convertNode um) raws) =
              filter (\<lambda>n. NodeID n \<in> changedNodeNotifiers s \<and>
                          (\<exists>old. map_of (nodes s) (NodeID n) = Some old \<and> \<not> Equals n old))
                     (map (convertNode um) raws)) \<and>
         keys s \<subseteq> keys s' \<and>
         map_of (nodes s') = map_of (nodes s) ++ snapshotMap (map (convertNode um) raws)"
proof -
  let ?xs = "map (convertNode um) raws"
  have d: "distinct (map NodeID ?xs)" if "distinct (map NodeId raws)"
    using that by (simp add: comp_def NodeID_convertNode)
  from refreshData_trace[OF assms] unequal_in_diffChanged[OF assms]
    diffChanged_distinct[OF d, of s] refreshData_effect(2)[OF assms] keys_after_refresh[OF assms]
  show ?thesis by blast
qed

theorem refreshData_diff_witness:
  "refreshData exampleUnmarshal (Inr [raw1_unhealthy, raw2]) (OnChangedNode 1 registryWithNode1)
     = Inr \<lparr> nodes = [(1, node1_unhealthy), (2, node2)], changedNodeNotifiers = {1},
             triggered = [NewNodes [node1], ChangedNode node1_unhealthy, NewNodes [node2]],
             errorLog = [], loopRunning = True \<rparr> \<and>
   distinct (map NodeId [raw1_unhealthy, raw2]) \<and>
   map_of (nodes (OnChangedNode 1 registryWithNode1)) (NodeID node1_unhealthy) = Some node1 \<and>
   \<not> Equals node1_unhealthy node1 \<and>
   diffChanged (OnChangedNode 1 registryWithNode1) [node1_unhealthy, node2] = [node1_unhealthy] \<and>
   node1_unhealthy \<in> set (diffChanged (OnChangedNode 1 registryWithNode1) [node1_unhealthy, node2])"
proof -
  let ?s = "OnChangedNode 1 registryWithNode1"
  let ?s' = "\<lparr> nodes = [(1, node1_unhealthy), (2, node2)], changedNodeNotifiers = {1},
             triggered = [NewNodes [node1], ChangedNode node1_unhealthy, NewNodes [node2]],
             errorLog = [], loopRunning = True \<rparr>"
  have h: "refreshData exampleUnmarshal (Inr [raw1_unhealthy, raw2]) ?s = Inr ?s'"
    by (simp add: eval_defs)
  have d: "distinct (map NodeId [raw1_unhealthy, raw2])"
    by (simp add: raw1_unhealthy_def raw2_def rawNode_def)
  have c: "map (convertNode exampleUnmarshal) [raw1_unhealthy, raw2] = [node1_unhealthy, node2]"
    by (simp add: eval_defs)
  have m: "map_of (nodes ?s) (NodeID node1_unhealthy) = Some node1"
    by (simp add: eval_defs)
  have u: "\<not> Equals node1_unhealthy node1"
    by (simp add: eval_defs)
  have q: "filter (\<lambda>n. NodeID n \<in> changedNodeNotifiers ?s \<and>
                     (\<exists>old. map_of (nodes ?s) (NodeID n) = Some old \<and> \<not> Equals n old))
             [node1_unhealthy, node2] = [node1_unhealthy]"
    by (simp add: eval_defs)
  from refreshData_diff[OF h] d
  have "diffChanged ?s [node1_unhealthy, node2] = [node1_unhealthy]"
    by (simp only: c q)
  with h d m u show ?thesis by simp
qed

text \<open>
  C4. A start whose contract call fails returns that error and leaves the registry as it
  was, the loop not started; a start whose contract call succeeds returns no error and
  the loop runs.
\<close>

theorem Start_error_iff_fetch_fails:
  "Start um (Inl e) s = (Some e, s) \<and>
   fst (Start um (Inr raws) s) = None \<and> loopRunning (snd (Start um (Inr raws) s)) \<and>
   ((fst (Start um res s) = None) = (\<exists>fetched. res = Inr fetched))"
  by (cases res)
     (simp_all add: Start_def refreshData_def loadFromContract_def split: prod.splits)

text \<open>
  C5. A tick whose contract call fails leaves the roster and the notifications as they
  were: the registry differs only by the logged error, and the loop goes on with the
  events that follow.
\<close>

theorem failed_tick_keeps_roster:
  "refreshData um (Inl e) s = Inl e \<and>
   tick um (Inl e) s = s\<lparr>errorLog := errorLog s @ [e]\<rparr> \<and>
   nodes (tick um (Inl e) s) = nodes s \<and>
   triggered (tick um (Inl e) s) = triggered s \<and>
   refreshLoop um (Tick (Inl e) # evs) s = refreshLoop um evs (s\<lparr>errorLog := errorLog s @ [e]\<rparr>)"
  by (simp add: tick_def refreshData_Inl)

text \<open>
  C6. The flag \<^verbatim>\<open>IsValidConfig\<close> of a converted node holds exactly when the signing key
  unmarshals and the address starts with "http://" or "https://". The conversion is a
  function of the raw record: two conversions of one record are equal nodes. No record
  makes the load fail: every fetched record is converted, and after the refresh the
  roster holds, under the id of each fetched record, the conversion of a fetched record
  with that id, whatever its flag.
\<close>

theorem convertNode_valid_config:
  "(IsValidConfig (convertNode um r) \<longleftrightarrow>
      um (SigningKeyPub (Node r)) \<noteq> None \<and>
      (prefix ''http://'' (NodesNode.HttpAddress (Node r)) \<or>
       prefix ''https://'' (NodesNode.HttpAddress (Node r)))) \<and>
   Equals (convertNode um r) (convertNode um r) \<and>
   loadFromContract um (Inr raws) = Inr (map (convertNode um) raws) \<and>
   (\<exists>s'. refreshData um (Inr raws) s = Inr s' \<and>
      (\<forall>x\<in>set raws. \<exists>y\<in>set raws. NodeId y = NodeId x \<and>
          map_of (nodes s') (NodeId x) = Some (convertNode um y)))"
proof -
  obtain s' where r: "refreshData um (Inr raws) s = Inr s'"
    using refreshData_succeeds by blast
  have "\<exists>y\<in>set raws. NodeId y = NodeId x \<and> map_of (nodes s') (NodeId x) = Some (convertNode um y)"
    if "x \<in> set raws" for x
  proof -
    from that have "NodeId x \<in> NodeID ` set (map (convertNode um) raws)"
      by (simp add: image_image NodeID_convertNode)
    then have "snapshotMap (map (convertNode um) raws) (NodeId x) \<noteq> None"
      by (simp only: snapshotMap_None_iff not_not)
    then obtain n where n: "snapshotMap (map (convertNode um) raws) (NodeId x) = Some n"
      by blast
    from snapshotMap_SomeD[OF n] obtain y where "y \<in> set raws" "n = convertNode um y"
      "NodeId y = NodeId x"
      by (auto simp: NodeID_convertNode)
    with n refreshData_effect(2)[OF r] show ?thesis by (auto simp: map_add_def)
  qed
  with r show ?thesis
    by (auto simp: convertNode_def Let_def HasPrefix_def Equals_def loadFromContract_def)
qed

theorem convertNode_valid_config_witness:
  "convertNode exampleUnmarshal raw3 = node3 \<and> \<not> IsValidConfig node3 \<and>
   (\<exists>s'. refreshData exampleUnmarshal (Inr [raw3]) NewSmartContractRegistry = Inr s' \<and>
         map_of (nodes s') 3 = Some node3)"
proof -
  have c: "convertNode exampleUnmarshal raw3 = node3" "NodeId raw3 = 3"
    by (simp_all add: eval_defs)
  from convertNode_valid_config[of exampleUnmarshal raw3 "[raw3]" NewSmartContractRegistry]
  have "\<exists>s'. refreshData exampleUnmarshal (Inr [raw3]) NewSmartContractRegistry = Inr s' \<and>
         map_of (nodes s') 3 = Some node3"
    by (simp add: c)
  then show ?thesis by (simp add: c) (simp add: node3_def)
qed

text \<open>
  C7. \<^verbatim>\<open>Fetch\<close> panics exactly when the syncer has no node to choose from. With a
  node chosen it returns either no error and, for each requested content id in order,
  the event that the chosen node holds under that id, whose content id is the requested
  one; or an error and no event at all, which is what happens as soon as the chosen node
  fails for one of the requested ids.
\<close>

theorem Fetch_whole_or_error:
  "(Fetch rnd s cids = Inl IntnInvalidArgument \<longleftrightarrow> syncerNodes s = []) \<and>
   (syncerNodes s \<noteq> [] \<longrightarrow>
      (\<exists>res e. Fetch rnd s cids = Inr (res, e) \<and>
         (e = None \<longrightarrow> map cid res = cids \<and>
            list_all2 (\<lambda>c ev. Get (syncerNodes s ! (rnd mod length (syncerNodes s)))
                                (syncerTopic s) c = Inr ev) cids res) \<and>
         (e \<noteq> None \<longrightarrow> res = []) \<and>
         ((\<exists>c\<in>set cids. \<exists>x. Get (syncerNodes s ! (rnd mod length (syncerNodes s)))
                                (syncerTopic s) c = Inl x) \<longrightarrow> e \<noteq> None)))"
proof -
  let ?get = "Get (syncerNodes s ! (rnd mod length (syncerNodes s))) (syncerTopic s)"
  have p: "Fetch rnd s cids = Inl IntnInvalidArgument \<longleftrightarrow> syncerNodes s = []"
    by (simp add: Fetch_def GetRandomNode_def)
  have "\<exists>res e. Fetch rnd s cids = Inr (res, e) \<and>
         (e = None \<longrightarrow> map cid res = cids \<and> list_all2 (\<lambda>c ev. ?get c = Inr ev) cids res) \<and>
         (e \<noteq> None \<longrightarrow> res = []) \<and>
         ((\<exists>c\<in>set cids. \<exists>x. ?get c = Inl x) \<longrightarrow> e \<noteq> None)"
    if ne: "syncerNodes s \<noteq> []"
  proof -
    obtain res e where l: "Fetch_loop ?get cids [] = (res, e)"
      by (cases "Fetch_loop ?get cids []") auto
    have f: "Fetch rnd s cids = Inr (res, e)"
      using ne l by (simp add: Fetch_def GetRandomNode_def)
    have ok: "map cid res = cids \<and> list_all2 (\<lambda>c ev. ?get c = Inr ev) cids res" if "e = None"
      using Fetch_loop_ok[of ?get cids "[]" res] l that
      by (auto dest: list_all2_Get_cid)
    have er: "res = []" if "e \<noteq> None"
      using Fetch_loop_error[of ?get cids "[]" res] l that by auto
    have fl: "e \<noteq> None" if "\<exists>c\<in>set cids. \<exists>x. ?get c = Inl x"
      using Fetch_loop_fails_iff[of ?get cids "[]"] l that by auto
    from f ok er fl show ?thesis by blast
  qed
  with p show ?thesis by blast
qed

theorem Fetch_whole_or_error_witness:
  "syncerNodes exampleSyncer \<noteq> [] \<and>
   Fetch 7 exampleSyncer [[18, 1]] = Inr ([exampleEvent], None) \<and>
   map cid [exampleEvent] = [[18, 1]] \<and>
   Fetch 7 exampleSyncer [[18, 1], [18, 2]] = Inr ([], Some NotFound)"
proof -
  have ne: "syncerNodes exampleSyncer \<noteq> []" by (simp add: exampleSyncer_def)
  have f1: "Fetch 7 exampleSyncer [[18, 1]] = Inr ([exampleEvent], None)"
    by (simp add: Fetch_def GetRandomNode_def Get_def exampleSyncer_def exampleReplica_def
        exampleEvent_def)
  have f2: "Fetch 7 exampleSyncer [[18, 1], [18, 2]] = Inr ([], Some NotFound)"
    by (simp add: Fetch_def GetRandomNode_def Get_def exampleSyncer_def exampleReplica_def
        exampleEvent_def)
  from Fetch_whole_or_error[of 7 exampleSyncer "[[18, 1]]"] ne f1
  have "map cid [exampleEvent] = [[18, 1]]" by auto
  with ne f1 f2 show ?thesis by blast
qed

text \<open>
  C8. The comparison of envelopes is to put the smaller \<^verbatim>\<open>uint64\<close> timestamp first.
  The difference of the timestamps is taken in \<^verbatim>\<open>int\<close> and wraps: an envelope at
  time \<open>2 ^ 63 + 1\<close> is put before one at time 0, and not the other way round.
\<close>

theorem envelopeLess_wraps:
  "TimestampNs envelopeEarly < TimestampNs envelopeLate \<and>
   envelopeLess envelopeLate envelopeEarly \<and> \<not> envelopeLess envelopeEarly envelopeLate"
  by (simp add: envelopeLess_def envelopeEarly_def envelopeLate_def)

text \<open>
  C9, amended. A refresh repeated with the same fetched list, whose ids are pairwise
  distinct, changes nothing: the registry after the second refresh is the registry
  after the first, roster and notifications included.
\<close>

theorem refresh_twice_distinct_ids:
  assumes "refreshData um (Inr raws) s = Inr s1" and "distinct (map NodeId raws)"
  shows "refreshData um (Inr raws) s1 = Inr s1"
proof -
  let ?xs = "map (convertNode um) raws"
  have d: "distinct (map NodeID ?xs)"
    using assms(2) by (simp add: comp_def NodeID_convertNode)
  have "map_of (nodes s1) (NodeID n) = Some n" if "n \<in> set ?xs" for n
    using refreshData_effect(2)[OF assms(1)] snapshotMap_distinct[OF d that]
    by (simp add: map_add_def)
  then have "refreshData_loop ?xs s1 [] = (s1, [])"
    by (intro loop_noop) blast
  then show ?thesis by (simp add: refreshData_def loadFromContract_def)
qed

theorem refresh_twice_distinct_ids_witness:
  "refreshData exampleUnmarshal (Inr [raw1, raw2]) NewSmartContractRegistry
     = Inr \<lparr> nodes = [(1, node1), (2, node2)], changedNodeNotifiers = {},
             triggered = [NewNodes [node1, node2]], errorLog = [], loopRunning = False \<rparr> \<and>
   distinct (map NodeId [raw1, raw2]) \<and>
   refreshData exampleUnmarshal (Inr [raw1, raw2])
     \<lparr> nodes = [(1, node1), (2, node2)], changedNodeNotifiers = {},
       triggered = [NewNodes [node1, node2]], errorLog = [], loopRunning = False \<rparr>
     = Inr \<lparr> nodes = [(1, node1), (2, node2)], changedNodeNotifiers = {},
             triggered = [NewNodes [node1, node2]], errorLog = [], loopRunning = False \<rparr>"
proof -
  have h: "refreshData exampleUnmarshal (Inr [raw1, raw2]) NewSmartContractRegistry
     = Inr \<lparr> nodes = [(1, node1), (2, node2)], changedNodeNotifiers = {},
             triggered = [NewNodes [node1, node2]], errorLog = [], loopRunning = False \<rparr>"
    by (simp add: eval_defs)
  have d: "distinct (map NodeId [raw1, raw2])"
    by (simp add: raw1_def raw2_def rawNode_def)
  from refresh_twice_distinct_ids[OF h d] h d show ?thesis by blast
qed

theorem refresh_twice_counterexample:
  "refreshData exampleUnmarshal (Inr [raw1, raw1_unhealthy])
      (OnChangedNode 1 NewSmartContractRegistry) = Inr registryAfterDuplicates \<and>
   refreshData exampleUnmarshal (Inr [raw1, raw1_unhealthy]) registryAfterDuplicates
     = Inr (registryAfterDuplicates
             \<lparr>triggered := triggered registryAfterDuplicates @
                 [ChangedNode node1, ChangedNode node1_unhealthy]\<rparr>) \<and>
   refreshData exampleUnmarshal (Inr [raw1, raw1_unhealthy]) registryAfterDuplicates
     \<noteq> Inr registryAfterDuplicates"
  by (simp add: eval_defs)

text \<open>
  C10. Whenever \<^verbatim>\<open>GetNodes\<close> returns, the error it returns is nil.
\<close>

theorem GetNodes_error_nil: "GetNodes s = Inr (ns, e) \<Longrightarrow> e = None"
  by (auto simp: GetNodes_def split: sum.splits)

theorem GetNodes_error_nil_witness:
  "GetNodes (snd (Start exampleUnmarshal (Inr [raw0]) NewSmartContractRegistry))
     = Inr ([convertNode exampleUnmarshal raw0], None) \<and> (None :: err option) = None"
proof -
  have h: "GetNodes (snd (Start exampleUnmarshal (Inr [raw0]) NewSmartContractRegistry))
     = Inr ([convertNode exampleUnmarshal raw0], None)"
    by (simp add: eval_defs)
  from GetNodes_error_nil[OF h] h show ?thesis by simp
qed

end
